theory Spec2Isabelle
  imports Main "HOL-Library.Word"
begin

unbundle bit_operations_syntax

section \<open>The DHCP message codec of dhcp\_message.cc\<close>

text \<open>
  The decoder works on a raw pointer and a length. Memory is modelled as a total
  function from addresses to bytes; an address is the offset from the pointer
  \<open>buffer\<close> that the caller hands in, and the caller's datagram is the bytes at
  offsets \<open>0 ..< length\<close>. Bytes at offsets from \<open>length\<close> on are whatever lies behind
  the datagram in memory: the code reads them whenever its own bounds let it, and so
  does the model. Pointer and \<open>size_t\<close> arithmetic is arithmetic modulo \<open>2 ^ 64\<close>.
\<close>

type_synonym memory = "nat \<Rightarrow> 8 word"

subsection \<open>Constants\<close>

definition kClientHardwareAddressLength :: nat where
  "kClientHardwareAddressLength = 16"

definition kServerNameLength :: nat where
  "kServerNameLength = 64"

definition kBootFileLength :: nat where
  "kBootFileLength = 128"

definition kDHCPOptionLength :: nat where
  "kDHCPOptionLength = 312"

definition kMagicCookie :: "32 word" where
  "kMagicCookie = 0x63825363"

definition kDHCPMessageMaxLength :: nat where
  "kDHCPMessageMaxLength = 548"

definition kDHCPMessageMinLength :: nat where
  "kDHCPMessageMinLength = 236"

definition kDHCPMessageBootRequest :: "8 word" where
  "kDHCPMessageBootRequest = 1"

definition kDHCPMessageBootReply :: "8 word" where
  "kDHCPMessageBootReply = 2"

definition kDHCPOptionPad :: "8 word" where
  "kDHCPOptionPad = 0"

definition kDHCPOptionDNSServer :: "8 word" where
  "kDHCPOptionDNSServer = 6"

definition kDHCPOptionLeaseTime :: "8 word" where
  "kDHCPOptionLeaseTime = 51"

definition kDHCPOptionMessageType :: "8 word" where
  "kDHCPOptionMessageType = 53"

definition kDHCPOptionServerIdentifier :: "8 word" where
  "kDHCPOptionServerIdentifier = 54"

definition kDHCPOptionRenewalTime :: "8 word" where
  "kDHCPOptionRenewalTime = 58"

definition kDHCPOptionRebindingTime :: "8 word" where
  "kDHCPOptionRebindingTime = 59"

definition kDHCPOptionEnd :: "8 word" where
  "kDHCPOptionEnd = 255"

text \<open>The two constants of the system headers: \<open>ARPHRD_ETHER\<close> of net/if\_arp.h and
  \<open>IFHWADDRLEN\<close> of net/if.h.\<close>

definition ARPHRD_ETHER :: "8 word" where
  "ARPHRD_ETHER = 1"

definition IFHWADDRLEN :: "8 word" where
  "IFHWADDRLEN = 6"

text \<open>The size of \<open>size_t\<close> and of a pointer, in bits.\<close>

definition size_t_bits :: nat where
  "size_t_bits = 64"

subsection \<open>The packed struct RawDHCPMessage: field offsets\<close>

definition raw_op :: nat where "raw_op = 0"
definition raw_htype :: nat where "raw_htype = 1"
definition raw_hlen :: nat where "raw_hlen = 2"
definition raw_hops :: nat where "raw_hops = 3"
definition raw_xid :: nat where "raw_xid = 4"
definition raw_secs :: nat where "raw_secs = 8"
definition raw_flags :: nat where "raw_flags = 10"
definition raw_ciaddr :: nat where "raw_ciaddr = 12"
definition raw_yiaddr :: nat where "raw_yiaddr = 16"
definition raw_siaddr :: nat where "raw_siaddr = 20"
definition raw_giaddr :: nat where "raw_giaddr = 24"
definition raw_chaddr :: nat where "raw_chaddr = 28"
definition raw_sname :: nat where "raw_sname = 28 + kClientHardwareAddressLength"
definition raw_file :: nat where "raw_file = 28 + kClientHardwareAddressLength + kServerNameLength"
definition raw_cookie :: nat where
  "raw_cookie = 28 + kClientHardwareAddressLength + kServerNameLength + kBootFileLength"
definition raw_options :: nat where
  "raw_options = 28 + kClientHardwareAddressLength + kServerNameLength + kBootFileLength + 4"

lemmas raw_offsets =
  raw_op_def raw_htype_def raw_hlen_def raw_hops_def raw_xid_def raw_secs_def
  raw_flags_def raw_ciaddr_def raw_yiaddr_def raw_siaddr_def raw_giaddr_def
  raw_chaddr_def raw_sname_def raw_file_def raw_cookie_def raw_options_def
  kClientHardwareAddressLength_def kServerNameLength_def kBootFileLength_def

subsection \<open>Reading memory\<close>

text \<open>\<open>ntohs\<close> and \<open>ntohl\<close> applied to a field of the packed struct: the bytes at the
  field's offset, most significant first, whatever the byte order of the host.\<close>

definition ntohs_at :: "memory \<Rightarrow> nat \<Rightarrow> 16 word" where
  "ntohs_at mem off = push_bit 8 (ucast (mem off)) OR ucast (mem (off + 1))"

definition ntohl_at :: "memory \<Rightarrow> nat \<Rightarrow> 32 word" where
  "ntohl_at mem off =
     push_bit 24 (ucast (mem off)) OR push_bit 16 (ucast (mem (off + 1)))
       OR push_bit 8 (ucast (mem (off + 2))) OR ucast (mem (off + 3))"

text \<open>\<open>ByteString(p, n)\<close> and \<open>std::string::assign(p, n)\<close> copy the \<open>n\<close> bytes that
  start at \<open>p\<close>.\<close>

definition bytes_at :: "memory \<Rightarrow> nat \<Rightarrow> nat \<Rightarrow> 8 word list" where
  "bytes_at mem off n = map mem [off ..< off + n]"

subsection \<open>The decoded message\<close>

text \<open>The members of the class \<open>DHCPMessage\<close> that the decoder writes, named as in the
  source without the trailing underscore.\<close>

record DHCPMessage =
  opcode :: "8 word"
  hardware_address_type :: "8 word"
  hardware_address_length :: "8 word"
  relay_hops :: "8 word"
  transaction_id :: "32 word"
  seconds :: "16 word"
  flags :: "16 word"
  client_ip_address :: "32 word"
  your_ip_address :: "32 word"
  next_server_ip_address :: "32 word"
  agent_ip_address :: "32 word"
  cookie :: "32 word"
  client_hardware_address :: "8 word list"
  servername :: "8 word list"
  bootfile :: "8 word list"
  message_type :: "8 word"
  lease_time :: "32 word"
  renewal_time :: "32 word"
  rebinding_time :: "32 word"
  server_identifier :: "32 word"
  dns_server :: "32 word list"

text \<open>The constructor sets the three times to 0 and leaves the other scalars
  uninitialised; they are 0 here, and every theorem below holds for any message.\<close>

definition DHCPMessage_new :: DHCPMessage where
  "DHCPMessage_new =
     \<lparr>opcode = 0, hardware_address_type = 0, hardware_address_length = 0,
      relay_hops = 0, transaction_id = 0, seconds = 0, flags = 0,
      client_ip_address = 0, your_ip_address = 0, next_server_ip_address = 0,
      agent_ip_address = 0, cookie = 0, client_hardware_address = [],
      servername = [], bootfile = [], message_type = 0, lease_time = 0,
      renewal_time = 0, rebinding_time = 0, server_identifier = 0,
      dns_server = []\<rparr>"

text \<open>Every \<open>return false\<close> of the decoder is one error value, named after the error
  taxonomy of the specification; \<open>InvalidBuffer\<close> is the null pointer check.\<close>

datatype error =
    InvalidBuffer
  | InvalidLength
  | InvalidMessage
  | MissingMessageType
  | TruncatedOption
  | DuplicateOption
  | OptionDecodeError "8 word"
  | UnterminatedOptions

subsection \<open>The option parsers and the table options\_map\<close>

datatype parser = UInt8Parser | UInt32Parser | UInt32ListParser

datatype destination =
    out_message_type
  | out_lease_time
  | out_server_identifier
  | out_renewal_time
  | out_rebinding_time
  | out_dns_server

datatype option_value = U8 "8 word" | U32 "32 word" | U32List "32 word list"

text \<open>The table the constructor fills: tag to parser and destination field.\<close>

definition options_map :: "8 word \<Rightarrow> (parser \<times> destination) option" where
  "options_map tag =
     (if tag = kDHCPOptionMessageType then Some (UInt8Parser, out_message_type)
      else if tag = kDHCPOptionLeaseTime then Some (UInt32Parser, out_lease_time)
      else if tag = kDHCPOptionServerIdentifier then Some (UInt32Parser, out_server_identifier)
      else if tag = kDHCPOptionRenewalTime then Some (UInt32Parser, out_renewal_time)
      else if tag = kDHCPOptionRebindingTime then Some (UInt32Parser, out_rebinding_time)
      else if tag = kDHCPOptionDNSServer then Some (UInt32ListParser, out_dns_server)
      else None)"

text \<open>Modelled from the spec: the bodies of the parsers' \<open>GetOption\<close> (the file
  dhcp\_options\_parser.cc is not among the sources). A fixed-width unsigned integer of 1
  or 4 bytes fails if the declared length is not the width; a list of 4-byte unsigned
  integers fails if the declared length is not a positive multiple of 4 and keeps the
  wire order. Multi-byte values are in network byte order.\<close>

fun GetOption_value :: "parser \<Rightarrow> memory \<Rightarrow> nat \<Rightarrow> 8 word \<Rightarrow> option_value option" where
  "GetOption_value UInt8Parser mem p len =
     (if unat len \<noteq> 1 then None else Some (U8 (mem p)))"
| "GetOption_value UInt32Parser mem p len =
     (if unat len \<noteq> 4 then None else Some (U32 (ntohl_at mem p)))"
| "GetOption_value UInt32ListParser mem p len =
     (if unat len = 0 \<or> unat len mod 4 \<noteq> 0 then None
      else Some (U32List (map (\<lambda>k. ntohl_at mem (p + 4 * k)) [0 ..< unat len div 4])))"

text \<open>The write through \<open>context->output\<close>, the pointer to the destination field.\<close>

fun store_output :: "destination \<Rightarrow> option_value \<Rightarrow> DHCPMessage \<Rightarrow> DHCPMessage" where
  "store_output out_message_type (U8 v) m = m\<lparr>message_type := v\<rparr>"
| "store_output out_lease_time (U32 v) m = m\<lparr>lease_time := v\<rparr>"
| "store_output out_server_identifier (U32 v) m = m\<lparr>server_identifier := v\<rparr>"
| "store_output out_renewal_time (U32 v) m = m\<lparr>renewal_time := v\<rparr>"
| "store_output out_rebinding_time (U32 v) m = m\<lparr>rebinding_time := v\<rparr>"
| "store_output out_dns_server (U32List vs) m = m\<lparr>dns_server := vs\<rparr>"
| "store_output _ _ m = m"

definition GetOption ::
  "parser \<times> destination \<Rightarrow> memory \<Rightarrow> nat \<Rightarrow> 8 word \<Rightarrow> DHCPMessage \<Rightarrow> DHCPMessage option" where
  "GetOption context mem p len m =
     map_option (\<lambda>v. store_output (snd context) v m) (GetOption_value (fst context) mem p len)"

subsection \<open>DHCPMessage::IsValid\<close>

definition IsValid :: "DHCPMessage \<Rightarrow> bool" where
  "IsValid m =
     (if opcode m \<noteq> kDHCPMessageBootReply then False
      else if hardware_address_type m \<noteq> ARPHRD_ETHER then False
      else if hardware_address_length m \<noteq> IFHWADDRLEN then False
      else if seconds m \<noteq> 0 then False
      else if flags m \<noteq> 0 then False
      else if cookie m \<noteq> kMagicCookie then False
      else True)"

subsection \<open>DHCPMessage::ParseDHCPOptions\<close>

text \<open>The state of the loop: the read pointer, the set of tags recorded so far, and
  the message the parsers write into.\<close>

record parse_state =
  ptr :: nat
  options_set :: "8 word set"
  msg :: DHCPMessage

datatype outcome =
    Return "error + unit" DHCPMessage
  | Continue parse_state

text \<open>One pass through the body of the \<open>while\<close> loop, entered with \<open>ptr < end_ptr\<close>.\<close>

definition loop_body :: "memory \<Rightarrow> nat \<Rightarrow> parse_state \<Rightarrow> outcome" where
  "loop_body mem end_ptr s =
     (let option_number = mem (ptr s);
          p1 = ptr s + 1
      in if option_number = kDHCPOptionPad then Continue (s\<lparr>ptr := p1\<rparr>)
         else if option_number = kDHCPOptionEnd then
           (if kDHCPOptionMessageType \<notin> options_set s
            then Return (Inl MissingMessageType) (msg s)
            else Return (Inr ()) (msg s))
         else if p1 \<ge> end_ptr then Return (Inl TruncatedOption) (msg s)
         else
           let option_length = mem p1;
               p2 = p1 + 1
           in if p2 + unat option_length \<ge> end_ptr
              then Return (Inl TruncatedOption) (msg s)
              else if option_number \<in> options_set s
              then Return (Inl DuplicateOption) (msg s)
              else
                (case options_map option_number of
                   Some context \<Rightarrow>
                     (case GetOption context mem p2 option_length (msg s) of
                        None \<Rightarrow> Return (Inl (OptionDecodeError option_number)) (msg s)
                      | Some m' \<Rightarrow>
                          Continue \<lparr>ptr = p2 + unat option_length,
                                    options_set = insert option_number (options_set s),
                                    msg = m'\<rparr>)
                 | None \<Rightarrow> Continue (s\<lparr>ptr := p2 + unat option_length\<rparr>)))"

lemma loop_body_advances:
  "loop_body mem end_ptr s = Continue s' \<Longrightarrow> ptr s < ptr s'"
  by (auto simp: loop_body_def Let_def split: if_splits option.splits)

function parse_loop :: "memory \<Rightarrow> nat \<Rightarrow> parse_state \<Rightarrow> (error + unit) \<times> DHCPMessage" where
  "parse_loop mem end_ptr s =
     (if ptr s < end_ptr then
        (case loop_body mem end_ptr s of
           Return r m \<Rightarrow> (r, m)
         | Continue s' \<Rightarrow> parse_loop mem end_ptr s')
      else (Inl UnterminatedOptions, msg s))"
  by pat_completeness auto
termination
proof (relation "measure (\<lambda>(mem, end_ptr, s). end_ptr - ptr s)")
  show "wf (measure (\<lambda>(mem, end_ptr, s). end_ptr - ptr s))"
    by simp
next
  fix mem :: memory and end_ptr :: nat and s s' :: parse_state
  assume "ptr s < end_ptr" and "loop_body mem end_ptr s = Continue s'"
  then show "((mem, end_ptr, s'), (mem, end_ptr, s)) \<in> measure (\<lambda>(mem, end_ptr, s). end_ptr - ptr s)"
    using loop_body_advances [of mem end_ptr s s'] by simp
qed

declare parse_loop.simps [simp del]

text \<open>\<open>end_ptr = options + options_length\<close>, pointer arithmetic.\<close>

definition ParseDHCPOptions ::
  "DHCPMessage \<Rightarrow> memory \<Rightarrow> nat \<Rightarrow> nat \<Rightarrow> (error + unit) \<times> DHCPMessage" where
  "ParseDHCPOptions m mem options options_length =
     (let end_ptr = (options + options_length) mod 2 ^ size_t_bits
      in parse_loop mem end_ptr \<lparr>ptr = options, options_set = {}, msg = m\<rparr>)"

subsection \<open>DHCPMessage::InitFromBuffer\<close>

text \<open>The assignments of the fixed header fields, in the order of the source.\<close>

definition extract_header :: "memory \<Rightarrow> DHCPMessage \<Rightarrow> DHCPMessage" where
  "extract_header mem message =
     (let m1 = message\<lparr>opcode := mem raw_op\<rparr>;
          m2 = m1\<lparr>hardware_address_type := mem raw_htype\<rparr>;
          m3 = m2\<lparr>hardware_address_length := mem raw_hlen\<rparr>;
          m4 = m3\<lparr>relay_hops := mem raw_hops\<rparr>;
          m5 = m4\<lparr>transaction_id := ntohl_at mem raw_xid\<rparr>;
          m6 = m5\<lparr>seconds := ntohs_at mem raw_secs\<rparr>;
          m7 = m6\<lparr>flags := ntohs_at mem raw_flags\<rparr>;
          m8 = m7\<lparr>client_ip_address := ntohl_at mem raw_ciaddr\<rparr>;
          m9 = m8\<lparr>your_ip_address := ntohl_at mem raw_yiaddr\<rparr>;
          m10 = m9\<lparr>next_server_ip_address := ntohl_at mem raw_siaddr\<rparr>;
          m11 = m10\<lparr>agent_ip_address := ntohl_at mem raw_giaddr\<rparr>;
          m12 = m11\<lparr>cookie := ntohl_at mem raw_cookie\<rparr>;
          m13 = m12\<lparr>client_hardware_address :=
                  bytes_at mem raw_chaddr (unat (hardware_address_length m12))\<rparr>;
          m14 = m13\<lparr>servername := bytes_at mem raw_sname kServerNameLength\<rparr>;
          m15 = m14\<lparr>bootfile := bytes_at mem raw_file kBootFileLength\<rparr>
      in m15)"

text \<open>The buffer is \<open>None\<close> for the null pointer. \<open>options_length\<close> is the source's
  \<open>buffer + length - options + 1\<close>, converted to \<open>size_t\<close>. The check of the hardware
  address length against \<open>kClientHardwareAddressLength\<close> only logs, so it has no
  branch here.\<close>

definition InitFromBuffer ::
  "memory option \<Rightarrow> nat \<Rightarrow> DHCPMessage \<Rightarrow> (error + unit) \<times> DHCPMessage" where
  "InitFromBuffer buffer len message =
     (case buffer of
        None \<Rightarrow> (Inl InvalidBuffer, message)
      | Some mem \<Rightarrow>
          if len < kDHCPMessageMinLength \<or> len > kDHCPMessageMaxLength
          then (Inl InvalidLength, message)
          else
            let options_length = (len + 2 ^ size_t_bits - raw_options + 1) mod 2 ^ size_t_bits;
                message' = extract_header mem message
            in if \<not> IsValid message' then (Inl InvalidMessage, message')
               else ParseDHCPOptions message' mem raw_options options_length)"

subsection \<open>DHCPMessage::ComputeChecksum\<close>

text \<open>The \<open>while (len > 1)\<close> loop and the \<open>if (len == 1)\<close> after it, on the \<open>len\<close>
  bytes at \<open>data\<close>; \<open>sum32\<close> is the \<open>uint32_t\<close> variable \<open>sum\<close>.\<close>

fun checksum_loop :: "8 word list \<Rightarrow> 32 word \<Rightarrow> 32 word" where
  "checksum_loop (d0 # d1 # rest) sum32 =
     checksum_loop rest (sum32 + (push_bit 8 (ucast d0) OR ucast d1))"
| "checksum_loop [d0] sum32 = sum32 + push_bit 8 (ucast d0)"
| "checksum_loop [] sum32 = sum32"

definition ComputeChecksum :: "8 word list \<Rightarrow> 16 word" where
  "ComputeChecksum data =
     (let sum0 = checksum_loop data 0;
          sum1 = drop_bit 16 sum0 + (sum0 AND 0xffff);
          sum2 = sum1 + drop_bit 16 sum1
      in NOT (ucast sum2 :: 16 word))"

subsection \<open>The header fields as one value\<close>


subsection \<open>Scanning: the state after a number of passes\<close>

text \<open>\<open>scan mem end_ptr n s\<close> runs the loop body \<open>n\<close> times from the state \<open>s\<close>, as
  the \<open>while\<close> loop does: it is \<open>Some (tags, t)\<close> if each of the \<open>n\<close> passes was entered
  with \<open>ptr < end_ptr\<close> and went on to the next pass. Then \<open>tags\<close> are the tag bytes the
  passes read at their start, in order, and \<open>t\<close> is the state before pass \<open>n + 1\<close>. It
  is \<open>None\<close> if the loop left or returned earlier.\<close>

fun scan :: "memory \<Rightarrow> nat \<Rightarrow> nat \<Rightarrow> parse_state \<Rightarrow> (8 word list \<times> parse_state) option" where
  "scan mem end_ptr 0 s = Some ([], s)"
| "scan mem end_ptr (Suc n) s =
     (if ptr s < end_ptr then
        (case loop_body mem end_ptr s of
           Return r m \<Rightarrow> None
         | Continue s' \<Rightarrow>
             map_option (\<lambda>(tags, t). (mem (ptr s) # tags, t)) (scan mem end_ptr n s'))
      else None)"

subsection \<open>A datagram for the examples\<close>

text \<open>A memory holding a valid header of a reply, the magic cookie at offset 236, and
  zero everywhere else.\<close>

definition example_reply :: memory where
  "example_reply =
     (\<lambda>_. 0)(0 := 2, 1 := 1, 2 := 6, 236 := 0x63, 237 := 0x82, 238 := 0x53, 239 := 0x63)"

subsection \<open>The folding of the sum, on words and on natural numbers\<close>

text \<open>The last three statements of \<open>ComputeChecksum\<close>, from the 32-bit sum to the
  16 bits that are complemented.\<close>

definition checksum_fold :: "32 word \<Rightarrow> 16 word" where
  "checksum_fold sum0 =
     (let sum1 = drop_bit 16 sum0 + (sum0 AND 0xffff);
          sum2 = sum1 + drop_bit 16 sum1
      in ucast sum2)"

text \<open>The same folding on natural numbers.\<close>

definition fold_nat :: "nat \<Rightarrow> nat" where
  "fold_nat s = (s div 65536 + s mod 65536 + (s div 65536 + s mod 65536) div 65536) mod 65536"

subsection \<open>The checksum in the words of the specification\<close>

text \<open>The specification's description of the Internet checksum: the bytes are taken
  as 16-bit big-endian words, an odd last byte as the high byte of a word padded with
  zero; the words are summed, the carries out of 16 bits are added back in until none
  is left, and the result is the ones' complement of the 16 bits. Here the sum is a
  natural number, with no bound on it.\<close>

fun be_words :: "8 word list \<Rightarrow> nat list" where
  "be_words (d0 # d1 # rest) = (256 * unat d0 + unat d1) # be_words rest"
| "be_words [d0] = [256 * unat d0]"
| "be_words [] = []"

function end_around_carry :: "nat \<Rightarrow> nat" where
  "end_around_carry x =
     (if x < 65536 then x else end_around_carry (x div 65536 + x mod 65536))"
  by pat_completeness auto
termination
proof (relation "measure (\<lambda>x. x)")
  show "wf (measure (\<lambda>x. x))" by simp
next
  fix x :: nat
  assume "\<not> x < 65536"
  then have q: "0 < x div 65536" by (simp add: div_greater_zero_iff)
  have "x = 65536 * (x div 65536) + x mod 65536" by simp
  with q have "x div 65536 + x mod 65536 < x" by linarith
  then show "(x div 65536 + x mod 65536, x) \<in> measure (\<lambda>x. x)" by simp
qed

declare end_around_carry.simps [simp del]

definition internet_checksum_spec :: "8 word list \<Rightarrow> nat" where
  "internet_checksum_spec data = 65535 - end_around_carry (sum_list (be_words data))"

section \<open>Properties of the decoder\<close>

subsection \<open>The end pointer and the loop\<close>

text \<open>For every length that passes the length check, the end pointer that
  \<open>ParseDHCPOptions\<close> computes from the \<open>options_length\<close> of \<open>InitFromBuffer\<close> is the
  offset \<open>length + 1\<close>.\<close>

lemma end_ptr_InitFromBuffer:
  "len \<le> kDHCPMessageMaxLength \<Longrightarrow>
   (raw_options + (len + 2 ^ size_t_bits - raw_options + 1) mod 2 ^ size_t_bits) mod 2 ^ size_t_bits
     = len + 1"
proof -
  assume "len \<le> kDHCPMessageMaxLength"
  then have l: "len \<le> 548" by (simp add: kDHCPMessageMaxLength_def)
  have r: "raw_options = 240" by (simp add: raw_offsets)
  have "len + 2 ^ 64 - 240 + 1 = (len + 1) + ((2 ^ 64 - 240) :: nat)" by simp
  then have a: "(len + 2 ^ 64 - 240 + 1) mod 2 ^ 64 = ((len + 1) + ((2 ^ 64 - 240) :: nat)) mod 2 ^ 64"
    by simp
  have "(240 + ((len + 1) + ((2 ^ 64 - 240) :: nat)) mod 2 ^ 64) mod 2 ^ 64
      = (240 + ((len + 1) + ((2 ^ 64 - 240) :: nat))) mod 2 ^ 64"
    by (rule mod_add_right_eq)
  also have "240 + ((len + 1) + ((2 ^ 64 - 240) :: nat)) = (len + 1) + 2 ^ 64" by simp
  also have "((len + 1) + 2 ^ 64) mod 2 ^ 64 = (len + 1) mod (2 ^ 64 :: nat)" by (rule mod_add_self2)
  also have "\<dots> = len + 1" using l by simp
  finally show ?thesis unfolding r size_t_bits_def a .
qed





lemma loop_body_not_InvalidMessage:
  "loop_body mem end_ptr s \<noteq> Return (Inl InvalidMessage) m"
  by (auto simp: loop_body_def Let_def split: if_splits option.splits)

lemma parse_loop_not_InvalidMessage: "fst (parse_loop mem end_ptr s) \<noteq> Inl InvalidMessage"
proof (induction mem end_ptr s rule: parse_loop.induct)
  case (1 mem end_ptr s)
  show ?case
  proof (cases "ptr s < end_ptr")
    case False
    then show ?thesis by (simp add: parse_loop.simps [of mem end_ptr s])
  next
    case True
    show ?thesis
    proof (cases "loop_body mem end_ptr s")
      case (Return r m)
      with True loop_body_not_InvalidMessage [of mem end_ptr s m] show ?thesis
        by (auto simp add: parse_loop.simps [of mem end_ptr s])
    next
      case (Continue s')
      with True "1.IH" [of s'] show ?thesis
        by (simp add: parse_loop.simps [of mem end_ptr s])
    qed
  qed
qed

lemma InitFromBuffer_in_range:
  assumes "236 \<le> len" "len \<le> 548"
  shows "InitFromBuffer (Some mem) len message =
     (if IsValid (extract_header mem message)
      then parse_loop mem (len + 1) \<lparr>ptr = 240, options_set = {}, msg = extract_header mem message\<rparr>
      else (Inl InvalidMessage, extract_header mem message))"
proof -
  have "len \<le> kDHCPMessageMaxLength" using assms by (simp add: kDHCPMessageMaxLength_def)
  from end_ptr_InitFromBuffer [OF this] have e: "(raw_options + (len + 2 ^ size_t_bits - raw_options + 1) mod 2 ^ size_t_bits) mod 2 ^ size_t_bits
     = len + 1" .
  have r: "raw_options = 240" by (simp add: raw_offsets)
  show ?thesis using assms e unfolding InitFromBuffer_def ParseDHCPOptions_def Let_def
    by (simp add: kDHCPMessageMinLength_def kDHCPMessageMaxLength_def r)
qed



lemma IsValid_iff:
  "IsValid m \<longleftrightarrow>
     opcode m = 2 \<and> hardware_address_type m = 1 \<and> hardware_address_length m = 6 \<and>
     seconds m = 0 \<and> flags m = 0 \<and> cookie m = 0x63825363"
  by (simp add: IsValid_def kDHCPMessageBootReply_def ARPHRD_ETHER_def IFHWADDRLEN_def
      kMagicCookie_def)

subsection \<open>The length check\<close>

text \<open>
  Claim C4. For every buffer (a non-null pointer) whose length is below 236 or above
  548, \<open>InitFromBuffer\<close> fails with \<open>InvalidLength\<close>. The result is the same for every
  content of memory and the message comes back as it was handed in: no byte is read,
  no header field is extracted and no option is parsed.
\<close>

theorem InitFromBuffer_InvalidLength:
  "len < 236 \<or> len > 548 \<Longrightarrow>
   InitFromBuffer (Some mem) len message = (Inl InvalidLength, message)"
  by (simp add: InitFromBuffer_def kDHCPMessageMinLength_def kDHCPMessageMaxLength_def)

theorem InitFromBuffer_InvalidLength_witness:
  "((235::nat) < 236 \<or> (235::nat) > 548) \<and>
   InitFromBuffer (Some (\<lambda>_. 0)) 235 DHCPMessage_new = (Inl InvalidLength, DHCPMessage_new) \<and>
   ((549::nat) < 236 \<or> (549::nat) > 548) \<and>
   InitFromBuffer (Some (\<lambda>_. 0)) 549 DHCPMessage_new = (Inl InvalidLength, DHCPMessage_new)"
  using InitFromBuffer_InvalidLength [of 235 "\<lambda>_. 0" DHCPMessage_new]
    InitFromBuffer_InvalidLength [of 549 "\<lambda>_. 0" DHCPMessage_new]
  by simp

subsection \<open>The states the scan reaches\<close>

text \<open>The result of the loop from the start is its result from any state the scan
  reaches; the set of recorded tags is the set of the tags read so far that have an entry
  in \<open>options_map\<close>; a pass that goes on has not read END.\<close>

lemma options_map_registered:
  "options_map tag \<noteq> None \<longleftrightarrow> tag \<in> {6, 51, 53, 54, 58, 59}"
  by (simp add: options_map_def kDHCPOptionMessageType_def kDHCPOptionLeaseTime_def
      kDHCPOptionServerIdentifier_def kDHCPOptionRenewalTime_def kDHCPOptionRebindingTime_def
      kDHCPOptionDNSServer_def)

lemma loop_body_Continue_options_set:
  "loop_body mem end_ptr s = Continue s' \<Longrightarrow>
   options_set s' =
     (if mem (ptr s) \<in> {6, 51, 53, 54, 58, 59} then insert (mem (ptr s)) (options_set s)
      else options_set s)"
  by (auto simp: loop_body_def Let_def options_map_def kDHCPOptionPad_def
      kDHCPOptionMessageType_def kDHCPOptionLeaseTime_def
      kDHCPOptionServerIdentifier_def kDHCPOptionRenewalTime_def kDHCPOptionRebindingTime_def
      kDHCPOptionDNSServer_def split: if_splits option.splits)

lemma loop_body_Continue_not_END:
  "loop_body mem end_ptr s = Continue s' \<Longrightarrow> mem (ptr s) \<noteq> kDHCPOptionEnd"
  by (auto simp: loop_body_def Let_def kDHCPOptionPad_def kDHCPOptionEnd_def
      split: if_splits option.splits)

lemma scan_parse_loop:
  "scan mem end_ptr n s = Some (tags, t) \<Longrightarrow> parse_loop mem end_ptr s = parse_loop mem end_ptr t"
proof (induction n arbitrary: s tags)
  case 0
  then show ?case by simp
next
  case (Suc n)
  from Suc.prems have lt: "ptr s < end_ptr" by (simp split: if_splits)
  from Suc.prems lt obtain s' where c: "loop_body mem end_ptr s = Continue s'"
    by (cases "loop_body mem end_ptr s") simp_all
  from Suc.prems lt c obtain tags' where "scan mem end_ptr n s' = Some (tags', t)"
    by auto
  from Suc.IH [OF this] have "parse_loop mem end_ptr s' = parse_loop mem end_ptr t" .
  with lt c show ?case by (simp add: parse_loop.simps [of mem end_ptr s])
qed

lemma scan_options_set:
  "scan mem end_ptr n s = Some (tags, t) \<Longrightarrow>
   options_set t = options_set s \<union> (set tags \<inter> {6, 51, 53, 54, 58, 59})"
proof (induction n arbitrary: s tags)
  case 0
  then show ?case by simp
next
  case (Suc n)
  from Suc.prems have lt: "ptr s < end_ptr" by (simp split: if_splits)
  from Suc.prems lt obtain s' where c: "loop_body mem end_ptr s = Continue s'"
    by (cases "loop_body mem end_ptr s") simp_all
  from Suc.prems lt c obtain tags' where
    t: "scan mem end_ptr n s' = Some (tags', t)" and tg: "tags = mem (ptr s) # tags'"
    by auto
  from Suc.IH [OF t] have "options_set t = options_set s' \<union> (set tags' \<inter> {6, 51, 53, 54, 58, 59})" .
  with loop_body_Continue_options_set [OF c] tg show ?case by auto
qed

lemma scan_no_END:
  "scan mem end_ptr n s = Some (tags, t) \<Longrightarrow> kDHCPOptionEnd \<notin> set tags"
proof (induction n arbitrary: s tags)
  case 0
  then show ?case by simp
next
  case (Suc n)
  from Suc.prems have lt: "ptr s < end_ptr" by (simp split: if_splits)
  from Suc.prems lt obtain s' where c: "loop_body mem end_ptr s = Continue s'"
    by (cases "loop_body mem end_ptr s") simp_all
  from Suc.prems lt c obtain tags' where
    t: "scan mem end_ptr n s' = Some (tags', t)" and tg: "tags = mem (ptr s) # tags'"
    by auto
  from Suc.IH [OF t] loop_body_Continue_not_END [OF c] tg show ?case by auto
qed

lemma ParseDHCPOptions_scan:
  assumes "scan mem end_ptr n \<lparr>ptr = options, options_set = {}, msg = m\<rparr> = Some (tags, s)"
    and "end_ptr = (options + options_length) mod 2 ^ size_t_bits"
  shows "ParseDHCPOptions m mem options options_length = parse_loop mem end_ptr s"
  using scan_parse_loop [OF assms(1)] assms(2) by (simp add: ParseDHCPOptions_def)

subsection \<open>Header validation\<close>

text \<open>
  Claim C5. For every buffer of accepted length (236 to 548), the decoder goes on to
  option parsing if and only if the six header conditions hold for the extracted
  fields: opcode 2 (BOOTREPLY), hardware address type 1 (Ethernet), hardware address
  length 6, seconds 0, flags 0 and cookie 0x63825363. If one of them fails the result
  is \<open>InvalidMessage\<close>, and \<open>InvalidMessage\<close> is the result only then.
\<close>

theorem header_validation:
  assumes "236 \<le> len" and "len \<le> 548"
  shows "let m' = extract_header mem message;
             valid = (opcode m' = 2 \<and> hardware_address_type m' = 1 \<and>
                      hardware_address_length m' = 6 \<and> seconds m' = 0 \<and> flags m' = 0 \<and>
                      cookie m' = 0x63825363)
         in (valid \<longrightarrow>
               InitFromBuffer (Some mem) len message =
                 ParseDHCPOptions m' mem 240 ((len + 2 ^ 64 - 240 + 1) mod 2 ^ 64)) \<and>
            (\<not> valid \<longrightarrow> InitFromBuffer (Some mem) len message = (Inl InvalidMessage, m')) \<and>
            ((fst (InitFromBuffer (Some mem) len message) = Inl InvalidMessage) = (\<not> valid))"
proof -
  let ?m = "extract_header mem message"
  have r: "raw_options = 240" by (simp add: raw_offsets)
  have a: "IsValid ?m \<Longrightarrow> InitFromBuffer (Some mem) len message =
                 ParseDHCPOptions ?m mem 240 ((len + 2 ^ 64 - 240 + 1) mod 2 ^ 64)"
    using assms
    by (simp add: InitFromBuffer_def Let_def kDHCPMessageMinLength_def kDHCPMessageMaxLength_def
        r size_t_bits_def)
  have b: "\<not> IsValid ?m \<Longrightarrow> InitFromBuffer (Some mem) len message = (Inl InvalidMessage, ?m)"
    using assms
    by (simp add: InitFromBuffer_def Let_def kDHCPMessageMinLength_def kDHCPMessageMaxLength_def)
  have c: "(fst (InitFromBuffer (Some mem) len message) = Inl InvalidMessage) = (\<not> IsValid ?m)"
  proof (cases "IsValid ?m")
    case True
    then show ?thesis
      using InitFromBuffer_in_range [OF assms, of mem message]
        parse_loop_not_InvalidMessage [of mem "len + 1" "\<lparr>ptr = 240, options_set = {}, msg = ?m\<rparr>"]
      by simp
  next
    case False
    then show ?thesis using b by simp
  qed
  show ?thesis
    unfolding Let_def IsValid_iff [of ?m, symmetric]
    using a b c by blast
qed

theorem header_validation_witness:
  "(236::nat) \<le> 240 \<and> (240::nat) \<le> 548 \<and>
   fst (InitFromBuffer (Some example_reply) 240 DHCPMessage_new) \<noteq> Inl InvalidMessage \<and>
   InitFromBuffer (Some (example_reply(0 := 1))) 240 DHCPMessage_new
     = (Inl InvalidMessage, extract_header (example_reply(0 := 1)) DHCPMessage_new)"
proof -
  have h1: "(236::nat) \<le> 240" and h2: "(240::nat) \<le> 548" by simp_all
  have v: "opcode (extract_header example_reply DHCPMessage_new) = 2 \<and>
           hardware_address_type (extract_header example_reply DHCPMessage_new) = 1 \<and>
           hardware_address_length (extract_header example_reply DHCPMessage_new) = 6 \<and>
           seconds (extract_header example_reply DHCPMessage_new) = 0 \<and>
           flags (extract_header example_reply DHCPMessage_new) = 0 \<and>
           cookie (extract_header example_reply DHCPMessage_new) = 0x63825363"
    by (simp add: extract_header_def Let_def raw_offsets example_reply_def ntohs_at_def ntohl_at_def)
  have nv: "opcode (extract_header (example_reply(0 := 1)) DHCPMessage_new) \<noteq> 2"
    by (simp add: extract_header_def Let_def raw_offsets)
  have a: "fst (InitFromBuffer (Some example_reply) 240 DHCPMessage_new) \<noteq> Inl InvalidMessage"
    using header_validation [OF h1 h2, of example_reply DHCPMessage_new] v
    unfolding Let_def by blast
  have b: "InitFromBuffer (Some (example_reply(0 := 1))) 240 DHCPMessage_new
     = (Inl InvalidMessage, extract_header (example_reply(0 := 1)) DHCPMessage_new)"
    using header_validation [OF h1 h2, of "example_reply(0 := 1)" DHCPMessage_new] nv
    unfolding Let_def by blast
  from h1 h2 a b show ?thesis by blast
qed

subsection \<open>The header fields after a failed decode\<close>



subsection \<open>Option parsing\<close>

text \<open>
  The bounds check, relative to the end pointer \<open>options + options_length\<close> that the
  parser is handed: at every tag other than PAD (0) and END (255) that the scan
  reaches, the parser takes the next byte as the length and fails with
  \<open>TruncatedOption\<close> if no length byte remains before the end pointer, or if the
  payload of the declared length would end at or behind it. The pass returns
  \<open>TruncatedOption\<close> in exactly these cases, and whenever the loop goes on, the payload
  ends strictly before the end pointer.
\<close>

lemma option_bounds_check:
  assumes "scan mem end_ptr n \<lparr>ptr = options, options_set = {}, msg = m\<rparr> = Some (tags, s)"
    and "end_ptr = (options + options_length) mod 2 ^ size_t_bits"
    and "ptr s < end_ptr"
    and "mem (ptr s) \<noteq> 0"
    and "mem (ptr s) \<noteq> 255"
  shows "(end_ptr \<le> ptr s + 1 \<or> end_ptr \<le> ptr s + 2 + unat (mem (ptr s + 1)) \<longrightarrow>
            ParseDHCPOptions m mem options options_length = (Inl TruncatedOption, msg s)) \<and>
         ((loop_body mem end_ptr s = Return (Inl TruncatedOption) (msg s)) =
            (end_ptr \<le> ptr s + 1 \<or> end_ptr \<le> ptr s + 2 + unat (mem (ptr s + 1)))) \<and>
         (\<forall>s'. loop_body mem end_ptr s = Continue s' \<longrightarrow>
            ptr s' = ptr s + 2 + unat (mem (ptr s + 1)) \<and> ptr s' < end_ptr)"
proof (intro conjI impI allI)
  assume t: "end_ptr \<le> ptr s + 1 \<or> end_ptr \<le> ptr s + 2 + unat (mem (ptr s + 1))"
  have "loop_body mem end_ptr s = Return (Inl TruncatedOption) (msg s)"
    using t assms(4,5) by (auto simp: loop_body_def Let_def kDHCPOptionPad_def kDHCPOptionEnd_def)
  then have "parse_loop mem end_ptr s = (Inl TruncatedOption, msg s)"
    using assms(3) by (simp add: parse_loop.simps [of mem end_ptr s])
  then show "ParseDHCPOptions m mem options options_length = (Inl TruncatedOption, msg s)"
    using ParseDHCPOptions_scan [OF assms(1,2)] by simp
next
  show "(loop_body mem end_ptr s = Return (Inl TruncatedOption) (msg s)) =
            (end_ptr \<le> ptr s + 1 \<or> end_ptr \<le> ptr s + 2 + unat (mem (ptr s + 1)))"
    using assms(4,5)
    by (auto simp: loop_body_def Let_def kDHCPOptionPad_def kDHCPOptionEnd_def
        split: option.splits)
next
  fix s' assume "loop_body mem end_ptr s = Continue s'"
  then show "ptr s' = ptr s + 2 + unat (mem (ptr s + 1))" and "ptr s' < end_ptr"
    using assms(4,5)
    by (auto simp: loop_body_def Let_def kDHCPOptionPad_def kDHCPOptionEnd_def
        split: option.splits if_splits)
qed

text \<open>Under \<open>InitFromBuffer\<close> the end pointer is the offset \<open>length + 1\<close>, so the
  payload of an accepted option lies inside the datagram, and may end with its last
  byte.\<close>

lemma accepted_payload_inside_datagram:
  assumes "loop_body mem (len + 1) s = Continue s'"
    and "mem (ptr s) \<noteq> 0"
  shows "ptr s' = ptr s + 2 + unat (mem (ptr s + 1)) \<and> ptr s' \<le> len"
  using assms
  by (auto simp: loop_body_def Let_def kDHCPOptionPad_def kDHCPOptionEnd_def
      split: option.splits if_splits)

text \<open>
  Claim C1 says that an option is rejected with \<open>TruncatedOption\<close> if its payload
  would run at or past the end of the decoded buffer, and is accepted only when the
  payload lies strictly within the buffer. The end pointer of the decoder is one byte
  behind the buffer, so an option whose payload ends exactly at the end of the buffer
  passes the check. Here a datagram of 243 bytes ends with the option 53 of length 1:
  its payload is the last byte, at offset 242, the option is accepted and its value
  stored, and the loop goes on to the byte behind the datagram.
\<close>

theorem option_ending_at_buffer_end_accepted:
  "InitFromBuffer (Some (example_reply(240 := 53, 241 := 1, 242 := 5))) 243 DHCPMessage_new
     = (Inl UnterminatedOptions,
        (extract_header (example_reply(240 := 53, 241 := 1, 242 := 5)) DHCPMessage_new)
          \<lparr>message_type := 5\<rparr>)"
proof -
  let ?mem = "example_reply(240 := 53, 241 := 1, 242 := 5)"
  have h1: "(236::nat) \<le> 243" and h2: "(243::nat) \<le> 548" by simp_all
  have v: "IsValid (extract_header ?mem DHCPMessage_new)"
    by (simp add: IsValid_iff extract_header_def Let_def raw_offsets example_reply_def
        ntohs_at_def ntohl_at_def)
  have p: "parse_loop ?mem 244 \<lparr>ptr = 240, options_set = {}, msg = m\<rparr>
      = (Inl UnterminatedOptions, m\<lparr>message_type := 5\<rparr>)" for m
    by (simp add: parse_loop.simps loop_body_def Let_def options_map_def GetOption_def
        example_reply_def kDHCPOptionPad_def kDHCPOptionEnd_def kDHCPOptionMessageType_def)
  show ?thesis
    using InitFromBuffer_in_range [OF h1 h2, of ?mem DHCPMessage_new] v p by simp
qed

text \<open>
  Claim C6. Whenever the scan reaches an END tag (255), parsing ends there: it
  succeeds if the message type tag 53 is among the tags read before, and fails with
  \<open>MissingMessageType\<close> otherwise, whatever else the options area holds.
\<close>

theorem END_requires_message_type:
  assumes "scan mem end_ptr n \<lparr>ptr = options, options_set = {}, msg = m\<rparr> = Some (tags, s)"
    and "end_ptr = (options + options_length) mod 2 ^ size_t_bits"
    and "ptr s < end_ptr"
    and "mem (ptr s) = 255"
  shows "ParseDHCPOptions m mem options options_length =
           (if 53 \<in> set tags then Inr () else Inl MissingMessageType, msg s)"
proof -
  have "options_set s = set tags \<inter> {6, 51, 53, 54, 58, 59}"
    using scan_options_set [OF assms(1)] by simp
  then have mt: "kDHCPOptionMessageType \<in> options_set s \<longleftrightarrow> 53 \<in> set tags"
    by (simp add: kDHCPOptionMessageType_def)
  have "loop_body mem end_ptr s =
          (if 53 \<in> set tags then Return (Inr ()) (msg s) else Return (Inl MissingMessageType) (msg s))"
    using assms(4) mt by (simp add: loop_body_def Let_def kDHCPOptionPad_def kDHCPOptionEnd_def)
  then have "parse_loop mem end_ptr s = (if 53 \<in> set tags then Inr () else Inl MissingMessageType, msg s)"
    using assms(3) by (simp add: parse_loop.simps [of mem end_ptr s])
  then show ?thesis using ParseDHCPOptions_scan [OF assms(1,2)] by simp
qed

theorem END_requires_message_type_witness:
  "scan (example_reply(240 := 53, 241 := 1, 242 := 5, 243 := 255)) 245 (Suc 0)
       \<lparr>ptr = 240, options_set = {}, msg = DHCPMessage_new\<rparr>
     = Some ([53], \<lparr>ptr = 243, options_set = {53}, msg = DHCPMessage_new\<lparr>message_type := 5\<rparr>\<rparr>) \<and>
   (245 :: nat) = (240 + 5) mod 2 ^ size_t_bits \<and>
   ParseDHCPOptions DHCPMessage_new (example_reply(240 := 53, 241 := 1, 242 := 5, 243 := 255)) 240 5
     = (Inr (), DHCPMessage_new\<lparr>message_type := 5\<rparr>) \<and>
   scan (example_reply(240 := 255)) 241 0 \<lparr>ptr = 240, options_set = {}, msg = DHCPMessage_new\<rparr>
     = Some ([], \<lparr>ptr = 240, options_set = {}, msg = DHCPMessage_new\<rparr>) \<and>
   ParseDHCPOptions DHCPMessage_new (example_reply(240 := 255)) 240 1
     = (Inl MissingMessageType, DHCPMessage_new)"
proof -
  let ?mem = "example_reply(240 := 53, 241 := 1, 242 := 5, 243 := 255)"
  let ?s = "\<lparr>ptr = 243, options_set = {53}, msg = DHCPMessage_new\<lparr>message_type := 5\<rparr>\<rparr>"
  have sc: "scan ?mem 245 (Suc 0) \<lparr>ptr = 240, options_set = {}, msg = DHCPMessage_new\<rparr> = Some ([53], ?s)"
    by (simp add: loop_body_def Let_def options_map_def GetOption_def
        kDHCPOptionPad_def kDHCPOptionEnd_def kDHCPOptionMessageType_def)
  have e: "(245 :: nat) = (240 + 5) mod 2 ^ size_t_bits"
    by (simp add: size_t_bits_def)
  have sc0: "scan (example_reply(240 := 255)) 241 0 \<lparr>ptr = 240, options_set = {}, msg = DHCPMessage_new\<rparr>
     = Some ([], \<lparr>ptr = 240, options_set = {}, msg = DHCPMessage_new\<rparr>)"
    by simp
  have e0: "(241 :: nat) = (240 + 1) mod 2 ^ size_t_bits"
    by (simp add: size_t_bits_def)
  have r: "ParseDHCPOptions DHCPMessage_new ?mem 240 5 = (Inr (), DHCPMessage_new\<lparr>message_type := 5\<rparr>)"
    using END_requires_message_type [OF sc e] by simp
  have r0: "ParseDHCPOptions DHCPMessage_new (example_reply(240 := 255)) 240 1
     = (Inl MissingMessageType, DHCPMessage_new)"
    using END_requires_message_type [OF sc0 e0] by simp
  from sc e r sc0 r0 show ?thesis by blast
qed

text \<open>
  Relative to the end pointer: whenever the scan uses up the bytes before the end
  pointer, after any number of passes, the loop ends with \<open>UnterminatedOptions\<close>, and
  no END tag was read on the way.
\<close>

lemma scan_exhausted_UnterminatedOptions:
  assumes "scan mem end_ptr n \<lparr>ptr = options, options_set = {}, msg = m\<rparr> = Some (tags, s)"
    and "end_ptr = (options + options_length) mod 2 ^ size_t_bits"
    and "end_ptr \<le> ptr s"
  shows "ParseDHCPOptions m mem options options_length = (Inl UnterminatedOptions, msg s) \<and>
         255 \<notin> set tags"
proof -
  have "parse_loop mem end_ptr s = (Inl UnterminatedOptions, msg s)"
    using assms(3) by (simp add: parse_loop.simps [of mem end_ptr s])
  moreover have "255 \<notin> set tags"
    using scan_no_END [OF assms(1)] by (simp add: kDHCPOptionEnd_def)
  ultimately show ?thesis using ParseDHCPOptions_scan [OF assms(1,2)] by simp
qed

text \<open>Conversely, \<open>UnterminatedOptions\<close> is the result only when the scan uses up the
  bytes. An option cut short by the end pointer is a \<open>TruncatedOption\<close>.\<close>

lemma UnterminatedOptions_only_when_exhausted:
  "fst (parse_loop mem end_ptr s) = Inl UnterminatedOptions \<Longrightarrow>
   \<exists>n tags t. scan mem end_ptr n s = Some (tags, t) \<and> end_ptr \<le> ptr t"
proof (induction mem end_ptr s rule: parse_loop.induct)
  case (1 mem end_ptr s)
  show ?case
  proof (cases "ptr s < end_ptr")
    case False
    then have "scan mem end_ptr 0 s = Some ([], s) \<and> end_ptr \<le> ptr s" by simp
    then show ?thesis by blast
  next
    case True
    show ?thesis
    proof (cases "loop_body mem end_ptr s")
      case (Return r m)
      with True "1.prems" have "r = Inl UnterminatedOptions"
        by (simp add: parse_loop.simps [of mem end_ptr s])
      with Return have False
        by (auto simp: loop_body_def Let_def split: if_splits option.splits)
      then show ?thesis ..
    next
      case (Continue s')
      with True "1.prems" have "fst (parse_loop mem end_ptr s') = Inl UnterminatedOptions"
        by (simp add: parse_loop.simps [of mem end_ptr s])
      from "1.IH" [OF True Continue this] obtain n tags t where
        "scan mem end_ptr n s' = Some (tags, t)" and "end_ptr \<le> ptr t" by blast
      with True Continue have
        "scan mem end_ptr (Suc n) s = Some (mem (ptr s) # tags, t) \<and> end_ptr \<le> ptr t"
        by simp
      then show ?thesis by blast
    qed
  qed
qed

text \<open>
  Claim C7 says that parsing fails with \<open>UnterminatedOptions\<close> whenever the scan uses
  up the bytes of the options area without reaching an END tag, however many options
  it parsed before. The decoder's scan does not stop at the end of the datagram: it
  takes the byte behind it as one more tag. Here a datagram of 244 bytes holds the
  option 53 and a PAD and no END tag; decoding succeeds if the byte behind the datagram
  is 255, fails with \<open>UnterminatedOptions\<close> if it is 0, and fails with \<open>TruncatedOption\<close>
  if it is 1.
\<close>

theorem datagram_without_END_decodes:
  "fst (InitFromBuffer
          (Some (example_reply(240 := 53, 241 := 1, 242 := 5, 243 := 0, 244 := 255))) 244
          DHCPMessage_new) = Inr () \<and>
   fst (InitFromBuffer
          (Some (example_reply(240 := 53, 241 := 1, 242 := 5, 243 := 0, 244 := 0))) 244
          DHCPMessage_new) = Inl UnterminatedOptions \<and>
   fst (InitFromBuffer
          (Some (example_reply(240 := 53, 241 := 1, 242 := 5, 243 := 0, 244 := 1))) 244
          DHCPMessage_new) = Inl TruncatedOption"
proof -
  have h1: "(236::nat) \<le> 244" and h2: "(244::nat) \<le> 548" by simp_all
  have v: "IsValid (extract_header
      (example_reply(240 := 53, 241 := 1, 242 := 5, 243 := 0, 244 := b)) DHCPMessage_new)" for b
    by (simp add: IsValid_iff extract_header_def Let_def raw_offsets example_reply_def
        ntohs_at_def ntohl_at_def)
  have p1: "fst (parse_loop (example_reply(240 := 53, 241 := 1, 242 := 5, 243 := 0, 244 := 255))
              245 \<lparr>ptr = 240, options_set = {}, msg = m\<rparr>) = Inr ()" for m
    by (simp add: parse_loop.simps loop_body_def Let_def options_map_def GetOption_def
        kDHCPOptionPad_def kDHCPOptionEnd_def kDHCPOptionMessageType_def)
  have p2: "fst (parse_loop (example_reply(240 := 53, 241 := 1, 242 := 5, 243 := 0, 244 := 0))
              245 \<lparr>ptr = 240, options_set = {}, msg = m\<rparr>) = Inl UnterminatedOptions" for m
    by (simp add: parse_loop.simps loop_body_def Let_def options_map_def GetOption_def
        kDHCPOptionPad_def kDHCPOptionEnd_def kDHCPOptionMessageType_def)
  have p3: "fst (parse_loop (example_reply(240 := 53, 241 := 1, 242 := 5, 243 := 0, 244 := 1))
              245 \<lparr>ptr = 240, options_set = {}, msg = m\<rparr>) = Inl TruncatedOption" for m
    by (simp add: parse_loop.simps loop_body_def Let_def options_map_def GetOption_def
        kDHCPOptionPad_def kDHCPOptionEnd_def kDHCPOptionMessageType_def)
  show ?thesis
    using InitFromBuffer_in_range [OF h1 h2] v p1 p2 p3 by simp
qed

text \<open>
  Claim C8. Whenever the scan reaches a tag that it has read before and that was
  accepted then, that is a tag with a parser (6, 51, 53, 54, 58 or 59) whose option was
  decoded and recorded, and the second occurrence passes the bounds check, parsing
  fails with \<open>DuplicateOption\<close>, whatever the two values are.
\<close>

theorem repeated_option_DuplicateOption:
  assumes "scan mem end_ptr n \<lparr>ptr = options, options_set = {}, msg = m\<rparr> = Some (tags, s)"
    and "end_ptr = (options + options_length) mod 2 ^ size_t_bits"
    and "ptr s < end_ptr"
    and "mem (ptr s) \<in> set tags"
    and "mem (ptr s) \<in> {6, 51, 53, 54, 58, 59}"
    and "ptr s + 2 + unat (mem (ptr s + 1)) < end_ptr"
  shows "ParseDHCPOptions m mem options options_length = (Inl DuplicateOption, msg s)"
proof -
  have "options_set s = set tags \<inter> {6, 51, 53, 54, 58, 59}"
    using scan_options_set [OF assms(1)] by simp
  with assms(4,5) have seen: "mem (ptr s) \<in> options_set s" by blast
  from assms(5) have tag: "mem (ptr s) \<noteq> kDHCPOptionPad" "mem (ptr s) \<noteq> kDHCPOptionEnd"
    by (auto simp: kDHCPOptionPad_def kDHCPOptionEnd_def)
  have "loop_body mem end_ptr s = Return (Inl DuplicateOption) (msg s)"
    using seen tag assms(6) by (simp add: loop_body_def Let_def)
  then have "parse_loop mem end_ptr s = (Inl DuplicateOption, msg s)"
    using assms(3) by (simp add: parse_loop.simps [of mem end_ptr s])
  then show ?thesis using ParseDHCPOptions_scan [OF assms(1,2)] by simp
qed

theorem repeated_option_DuplicateOption_witness:
  "scan (example_reply(240 := 53, 241 := 1, 242 := 5, 243 := 53, 244 := 1, 245 := 5, 246 := 255))
       248 (Suc 0) \<lparr>ptr = 240, options_set = {}, msg = DHCPMessage_new\<rparr>
     = Some ([53], \<lparr>ptr = 243, options_set = {53}, msg = DHCPMessage_new\<lparr>message_type := 5\<rparr>\<rparr>) \<and>
   (248 :: nat) = (240 + 8) mod 2 ^ size_t_bits \<and>
   ParseDHCPOptions DHCPMessage_new
       (example_reply(240 := 53, 241 := 1, 242 := 5, 243 := 53, 244 := 1, 245 := 5, 246 := 255))
       240 8
     = (Inl DuplicateOption, DHCPMessage_new\<lparr>message_type := 5\<rparr>)"
proof -
  let ?mem = "example_reply(240 := 53, 241 := 1, 242 := 5, 243 := 53, 244 := 1, 245 := 5, 246 := 255)"
  let ?s = "\<lparr>ptr = 243, options_set = {53}, msg = DHCPMessage_new\<lparr>message_type := 5\<rparr>\<rparr>"
  have sc: "scan ?mem 248 (Suc 0) \<lparr>ptr = 240, options_set = {}, msg = DHCPMessage_new\<rparr>
      = Some ([53], ?s)"
    by (simp add: loop_body_def Let_def options_map_def GetOption_def
        kDHCPOptionPad_def kDHCPOptionEnd_def kDHCPOptionMessageType_def)
  have e: "(248 :: nat) = (240 + 8) mod 2 ^ size_t_bits"
    by (simp add: size_t_bits_def)
  have r: "ParseDHCPOptions DHCPMessage_new ?mem 240 8
      = (Inl DuplicateOption, DHCPMessage_new\<lparr>message_type := 5\<rparr>)"
    using repeated_option_DuplicateOption [OF sc e] by simp
  from sc e r show ?thesis by blast
qed

subsection \<open>Reads outside the datagram and outside the hardware address field\<close>

text \<open>
  Claim C2 says that option parsing works on the bytes at offsets 240 to \<open>length - 1\<close>
  and never looks at a byte at offset \<open>length\<close> or beyond. The end pointer is the offset
  \<open>length + 1\<close>, so the loop reads the byte at offset \<open>length\<close> as a tag. Here a datagram
  of 243 bytes ends with the option 53; the byte behind it, at offset 243, decides
  whether decoding succeeds.
\<close>

theorem InitFromBuffer_reads_byte_after_datagram:
  "fst (InitFromBuffer (Some (example_reply(240 := 53, 241 := 1, 242 := 5, 243 := 255))) 243
          DHCPMessage_new) = Inr () \<and>
   fst (InitFromBuffer (Some (example_reply(240 := 53, 241 := 1, 242 := 5, 243 := 0))) 243
          DHCPMessage_new) = Inl UnterminatedOptions"
proof -
  have h1: "(236::nat) \<le> 243" and h2: "(243::nat) \<le> 548" by simp_all
  have v: "IsValid (extract_header (example_reply(240 := 53, 241 := 1, 242 := 5, 243 := b)) DHCPMessage_new)"
    for b
    by (simp add: IsValid_iff extract_header_def Let_def raw_offsets example_reply_def
        ntohs_at_def ntohl_at_def)
  have p1: "fst (parse_loop (example_reply(240 := 53, 241 := 1, 242 := 5, 243 := 255)) 244
              \<lparr>ptr = 240, options_set = {}, msg = m\<rparr>) = Inr ()" for m
    by (simp add: parse_loop.simps loop_body_def Let_def options_map_def GetOption_def
        kDHCPOptionPad_def kDHCPOptionEnd_def kDHCPOptionMessageType_def)
  have p2: "fst (parse_loop (example_reply(240 := 53, 241 := 1, 242 := 5, 243 := 0)) 244
              \<lparr>ptr = 240, options_set = {}, msg = m\<rparr>) = Inl UnterminatedOptions" for m
    by (simp add: parse_loop.simps loop_body_def Let_def options_map_def GetOption_def
        kDHCPOptionPad_def kDHCPOptionEnd_def kDHCPOptionMessageType_def)
  show ?thesis
    using InitFromBuffer_in_range [OF h1 h2] v p1 p2 by simp
qed

text \<open>The loop reads no further than that: its result is the same for two memories
  that agree before the end pointer.\<close>

lemma ntohl_at_cong:
  "(\<forall>i < 4. mem1 (p + i) = mem2 (p + i)) \<Longrightarrow> ntohl_at mem1 p = ntohl_at mem2 p"
proof -
  assume a: "\<forall>i < 4. mem1 (p + i) = mem2 (p + i)"
  have "(0::nat) < 4" "(1::nat) < 4" "(2::nat) < 4" "(3::nat) < 4" by simp_all
  with a have "mem1 (p + 0) = mem2 (p + 0)" "mem1 (p + 1) = mem2 (p + 1)"
    "mem1 (p + 2) = mem2 (p + 2)" "mem1 (p + 3) = mem2 (p + 3)"
    by blast+
  then show ?thesis by (simp add: ntohl_at_def)
qed

lemma GetOption_value_cong:
  assumes "\<forall>i < unat len. mem1 (p + i) = mem2 (p + i)"
  shows "GetOption_value parser mem1 p len = GetOption_value parser mem2 p len"
proof (cases parser)
  case UInt8Parser
  show ?thesis
  proof (cases "unat len = 1")
    case True
    with assms have "mem1 (p + 0) = mem2 (p + 0)" by simp
    with UInt8Parser show ?thesis by simp
  next
    case False
    with UInt8Parser show ?thesis by simp
  qed
next
  case UInt32Parser
  show ?thesis
  proof (cases "unat len = 4")
    case True
    with assms have "ntohl_at mem1 p = ntohl_at mem2 p" by (intro ntohl_at_cong) simp
    with UInt32Parser show ?thesis by simp
  next
    case False
    with UInt32Parser show ?thesis by simp
  qed
next
  case UInt32ListParser
  have "ntohl_at mem1 (p + 4 * k) = ntohl_at mem2 (p + 4 * k)"
    if "k < unat len div 4" for k
  proof (rule ntohl_at_cong, intro allI impI)
    fix i :: nat assume "i < 4"
    with that have "4 * k + i < unat len" by simp
    with assms have "mem1 (p + (4 * k + i)) = mem2 (p + (4 * k + i))" by blast
    then show "mem1 (p + 4 * k + i) = mem2 (p + 4 * k + i)" by (simp add: add.assoc)
  qed
  then have "map (\<lambda>k. ntohl_at mem1 (p + 4 * k)) [0 ..< unat len div 4]
      = map (\<lambda>k. ntohl_at mem2 (p + 4 * k)) [0 ..< unat len div 4]"
    by simp
  with UInt32ListParser show ?thesis by simp
qed

lemma loop_body_cong:
  assumes "\<forall>i < end_ptr. mem1 i = mem2 i" and "ptr s < end_ptr"
  shows "loop_body mem1 end_ptr s = loop_body mem2 end_ptr s"
proof -
  have t: "mem1 (ptr s) = mem2 (ptr s)" using assms by simp
  show ?thesis
  proof (cases "ptr s + 1 < end_ptr")
    case False
    then show ?thesis using t by (simp add: loop_body_def Let_def)
  next
    case True
    then have l: "mem1 (ptr s + 1) = mem2 (ptr s + 1)" using assms(1) by simp
    show ?thesis
    proof (cases "ptr s + 2 + unat (mem2 (ptr s + 1)) < end_ptr")
      case False
      then show ?thesis using t l by (simp add: loop_body_def Let_def)
    next
      case inb: True
      have "\<forall>i < unat (mem2 (ptr s + 1)). mem1 (ptr s + 2 + i) = mem2 (ptr s + 2 + i)"
        using assms(1) inb by simp
      then have "GetOption_value parser mem1 (ptr s + 2) (mem2 (ptr s + 1))
          = GetOption_value parser mem2 (ptr s + 2) (mem2 (ptr s + 1))" for parser
        by (rule GetOption_value_cong)
      then have "GetOption ctx mem1 (ptr s + 2) (mem2 (ptr s + 1)) m
          = GetOption ctx mem2 (ptr s + 2) (mem2 (ptr s + 1)) m" for ctx m
        by (simp add: GetOption_def)
      then have g: "GetOption ctx mem1 (Suc (Suc (ptr s))) (mem2 (Suc (ptr s))) m
          = GetOption ctx mem2 (Suc (Suc (ptr s))) (mem2 (Suc (ptr s))) m" for ctx m
        by simp
      show ?thesis using t l by (simp add: loop_body_def Let_def g cong: option.case_cong)
    qed
  qed
qed

lemma parse_loop_reads_below_end_ptr:
  "\<forall>i < end_ptr. mem1 i = mem2 i \<Longrightarrow> parse_loop mem1 end_ptr s = parse_loop mem2 end_ptr s"
proof (induction mem1 end_ptr s rule: parse_loop.induct)
  case (1 mem1 end_ptr s)
  show ?case
  proof (cases "ptr s < end_ptr")
    case False
    then show ?thesis
      by (simp add: parse_loop.simps [of mem1 end_ptr s] parse_loop.simps [of mem2 end_ptr s])
  next
    case True
    note b = loop_body_cong [OF "1.prems" True]
    show ?thesis
    proof (cases "loop_body mem1 end_ptr s")
      case (Return r m)
      then have "loop_body mem2 end_ptr s = Return r m" using b by simp
      with True Return show ?thesis
        by (simp add: parse_loop.simps [of mem1 end_ptr s] parse_loop.simps [of mem2 end_ptr s])
    next
      case (Continue s')
      then have "loop_body mem2 end_ptr s = Continue s'" using b by simp
      with True Continue "1.IH" [OF True Continue "1.prems"] show ?thesis
        by (simp add: parse_loop.simps [of mem1 end_ptr s] parse_loop.simps [of mem2 end_ptr s])
    qed
  qed
qed

text \<open>
  Claim C3 says that with a hardware address length above 16 decoding goes on and at
  most the 16 bytes of the field at offsets 28 to 43 are read for the client hardware
  address. Decoding does go on, to the header validation, but the copy takes as many
  bytes as the length byte says. Here the length byte is 255 in a datagram of 236
  bytes: the address gets 255 bytes, among them the byte at offset 44, the first of the
  server name, and the byte at offset 236, the first behind the datagram.
\<close>

theorem oversized_hlen_copies_past_chaddr:
  "fst (InitFromBuffer (Some ((\<lambda>_. 0)(2 := 255, 44 := 0xAA, 236 := 0xBB))) 236 DHCPMessage_new)
     = Inl InvalidMessage \<and>
   length (client_hardware_address
     (snd (InitFromBuffer (Some ((\<lambda>_. 0)(2 := 255, 44 := 0xAA, 236 := 0xBB))) 236 DHCPMessage_new)))
     = 255 \<and>
   client_hardware_address
     (snd (InitFromBuffer (Some ((\<lambda>_. 0)(2 := 255, 44 := 0xAA, 236 := 0xBB))) 236 DHCPMessage_new))
     ! 16 = 0xAA \<and>
   client_hardware_address
     (snd (InitFromBuffer (Some ((\<lambda>_. 0)(2 := 255, 44 := 0xAA, 236 := 0xBB))) 236 DHCPMessage_new))
     ! 208 = 0xBB"
proof -
  let ?mem = "(\<lambda>_. 0)(2 := 255, 44 := 0xAA, 236 := 0xBB) :: memory"
  have h1: "(236::nat) \<le> 236" and h2: "(236::nat) \<le> 548" by simp_all
  have nv: "\<not> IsValid (extract_header ?mem DHCPMessage_new)"
    by (simp add: IsValid_iff extract_header_def Let_def raw_offsets)
  have r: "InitFromBuffer (Some ?mem) 236 DHCPMessage_new
      = (Inl InvalidMessage, extract_header ?mem DHCPMessage_new)"
    using InitFromBuffer_in_range [OF h1 h2, of ?mem DHCPMessage_new] nv by simp
  have c: "client_hardware_address (extract_header ?mem DHCPMessage_new) = bytes_at ?mem 28 255"
    by (simp add: extract_header_def Let_def raw_offsets)
  have l: "length (bytes_at ?mem 28 255) = 255"
    by (simp add: bytes_at_def)
  have a: "bytes_at ?mem 28 255 ! 16 = 0xAA"
    unfolding bytes_at_def by (subst nth_map) simp_all
  have b: "bytes_at ?mem 28 255 ! 208 = 0xBB"
    unfolding bytes_at_def by (subst nth_map) simp_all
  show ?thesis unfolding r using c l a b by simp
qed

section \<open>Properties of the checksum\<close>

subsection \<open>Folding the 32-bit sum\<close>

lemma fold_nat_hl:
  assumes "l < 65536"
  shows "fold_nat (65536 * h + l) = (h + l + (h + l) div 65536) mod 65536"
  using assms by (simp add: fold_nat_def)

lemma residual_nat:
  assumes "s < 4294967296"
  shows "s + (65535 - fold_nat s) < 4294967296 \<and> fold_nat (s + (65535 - fold_nat s)) = 65535"
proof -
  define h where "h = s div 65536"
  define l where "l = s mod 65536"
  have s: "s = 65536 * h + l" and l: "l < 65536" and h: "h < 65536"
    using assms by (auto simp: h_def l_def)
  show ?thesis
  proof (cases "h + l < 65536")
    case True
    then have f: "fold_nat s = h + l" unfolding s fold_nat_hl [OF l] by simp
    have e: "s + (65535 - fold_nat s) = 65536 * h + (65535 - h)"
      unfolding f using True s by simp
    have "fold_nat (65536 * h + (65535 - h)) = 65535"
      using h by (subst fold_nat_hl) simp_all
    then show ?thesis unfolding e using h by simp
  next
    case False
    then have d: "(h + l) div 65536 = 1" using h l by simp
    have f: "fold_nat s = h + l - 65535"
      unfolding s fold_nat_hl [OF l] d using False h l
      by (simp add: mod_if)
    show ?thesis
    proof (cases "h = 65535")
      case True
      have e: "s + (65535 - fold_nat s) = 65536 * 65535 + 65535"
        unfolding f using True False s l by simp
      have "fold_nat (65536 * 65535 + 65535) = 65535"
        by (simp add: fold_nat_def)
      then show ?thesis unfolding e by simp
    next
      case nt: False
      have e: "s + (65535 - fold_nat s) = 65536 * (h + 1) + (65534 - h)"
        unfolding f using nt False s l h by simp
      have "fold_nat (65536 * (h + 1) + (65534 - h)) = 65535"
        using h nt by (subst fold_nat_hl) simp_all
      then show ?thesis unfolding e using h nt by simp
    qed
  qed
qed

lemma ComputeChecksum_fold:
  "ComputeChecksum data = NOT (checksum_fold (checksum_loop data 0))"
  by (simp add: ComputeChecksum_def checksum_fold_def Let_def)

lemma unat_high16: "unat (drop_bit 16 (w :: 32 word)) = unat w div 65536"
  by (simp add: drop_bit_eq_div unat_div)

lemma unat_low16: "unat ((w :: 32 word) AND 0xffff) = unat w mod 65536"
proof -
  have "(0xffff :: 32 word) = mask 16" by (simp add: mask_eq_exp_minus_1)
  then have "w AND 0xffff = take_bit 16 w" by (simp add: take_bit_eq_mask)
  then show ?thesis by (simp add: take_bit_eq_mod unat_mod)
qed

lemma unat_checksum_fold: "unat (checksum_fold w) = fold_nat (unat w)"
proof -
  let ?h = "unat w div 65536" and ?l = "unat w mod 65536"
  have hb: "?h < 65536" using unsigned_less [of w, where 'a = nat] by simp
  have lb: "?l < 65536" by simp
  have "unat (drop_bit 16 w) + unat (w AND 0xffff) < 2 ^ LENGTH(32)"
    using hb lb by (simp only: unat_high16 unat_low16) simp
  then have s1: "unat (drop_bit 16 w + (w AND 0xffff)) = ?h + ?l"
    by (simp only: unat_add_lem [THEN iffD1] unat_high16 unat_low16)
  have d1: "unat (drop_bit 16 (drop_bit 16 w + (w AND 0xffff))) = (?h + ?l) div 65536"
    by (simp only: unat_high16 s1)
  have "unat (drop_bit 16 w + (w AND 0xffff))
          + unat (drop_bit 16 (drop_bit 16 w + (w AND 0xffff))) < 2 ^ LENGTH(32)"
    using hb lb by (simp only: s1 d1) simp
  then have s2: "unat (drop_bit 16 w + (w AND 0xffff) + drop_bit 16 (drop_bit 16 w + (w AND 0xffff)))
      = ?h + ?l + (?h + ?l) div 65536"
    by (simp only: unat_add_lem [THEN iffD1] s1 d1)
  show ?thesis
    unfolding checksum_fold_def Let_def fold_nat_def
    by (simp only: unsigned_ucast_eq take_bit_eq_mod s2) simp
qed

lemma unat_not16: "unat (NOT (c :: 16 word)) = 65535 - unat c"
proof -
  have m: "(0xffff :: 16 word) = - 1" by simp
  have "NOT c = 0xffff - c" unfolding m by (simp add: not_eq_complement)
  moreover have "c \<le> 0xffff" unfolding m by (rule word_n1_ge)
  ultimately have "unat (NOT c) = unat (0xffff :: 16 word) - unat c" by (simp only: unat_sub)
  then show ?thesis by simp
qed

lemma checksum_residual:
  "NOT (checksum_fold (w + ucast (NOT (checksum_fold w)))) = 0"
proof -
  let ?c = "NOT (checksum_fold w)"
  have w: "unat w < 4294967296" using unsigned_less [of w, where 'a = nat] by simp
  have c: "unat (ucast ?c :: 32 word) = 65535 - fold_nat (unat w)"
    by (simp add: unsigned_ucast_eq unat_not16 unat_checksum_fold take_bit_eq_mod)
  from residual_nat [OF w] have
    b: "unat w + (65535 - fold_nat (unat w)) < 4294967296" and
    f: "fold_nat (unat w + (65535 - fold_nat (unat w))) = 65535" by simp_all
  have "unat w + unat (ucast ?c :: 32 word) < 2 ^ LENGTH(32)"
    using b by (simp only: c) simp
  then have "unat (w + ucast ?c) = unat w + (65535 - fold_nat (unat w))"
    by (simp only: unat_add_lem [THEN iffD1] c)
  then have "unat (checksum_fold (w + ucast ?c)) = 65535"
    using f by (simp add: unat_checksum_fold)
  then have "unat (NOT (checksum_fold (w + ucast ?c))) = 0"
    by (simp add: unat_not16)
  then show ?thesis by (simp add: unat_eq_0)
qed

subsection \<open>The loop over the bytes\<close>

lemma checksum_loop_acc: "checksum_loop d s = s + checksum_loop d 0"
proof (induction d arbitrary: s rule: induct_list012)
  case 1
  show ?case by simp
next
  case (2 x)
  show ?case by simp
next
  case (3 x y zs)
  have "checksum_loop (x # y # zs) s = (s + (push_bit 8 (ucast x) OR ucast y)) + checksum_loop zs 0"
    using "3.IH"(1) [of "s + (push_bit 8 (ucast x) OR ucast y)"] by simp
  moreover have "checksum_loop (x # y # zs) 0 = (push_bit 8 (ucast x) OR ucast y) + checksum_loop zs 0"
    using "3.IH"(1) [of "0 + (push_bit 8 (ucast x) OR ucast y)"] by simp
  ultimately show ?case by (simp add: add.assoc)
qed

lemma checksum_loop_append:
  "even (length pre) \<Longrightarrow> checksum_loop (pre @ post) s = checksum_loop post (checksum_loop pre s)"
proof (induction pre arbitrary: s rule: induct_list012)
  case 1
  show ?case by simp
next
  case (2 x)
  then show ?case by simp
next
  case (3 x y zs)
  then show ?case by simp
qed

lemma checksum_loop_zeros: "checksum_loop (replicate n 0) s = s"
proof (induction n arbitrary: s rule: less_induct)
  case (less n)
  show ?case
  proof (cases n)
    case 0
    then show ?thesis by simp
  next
    case (Suc m)
    show ?thesis
    proof (cases m)
      case 0
      with Suc show ?thesis by simp
    next
      case (Suc k)
      with \<open>n = Suc m\<close> less.IH [of k] show ?thesis by simp
    qed
  qed
qed

lemma word16_bytes:
  "push_bit 8 (ucast (ucast (drop_bit 8 c) :: 8 word) :: 32 word) OR ucast (ucast c :: 8 word)
     = (ucast (c :: 16 word) :: 32 word)"
  by (rule bit_word_eqI) (auto simp: bit_simps dest: bit_imp_le_length)

lemma checksum_loop_field:
  assumes "even (length pre)"
  shows "checksum_loop (pre @ [ucast (drop_bit 8 c), ucast c] @ post) 0
           = checksum_loop (pre @ [0, 0] @ post) 0 + ucast (c :: 16 word)"
proof -
  have a: "checksum_loop (pre @ [ucast (drop_bit 8 c), ucast c] @ post) 0
      = checksum_loop post (checksum_loop pre 0 + ucast c)"
    using assms by (simp add: checksum_loop_append word16_bytes)
  have b: "checksum_loop (pre @ [0, 0] @ post) 0 = checksum_loop post (checksum_loop pre 0)"
    using assms by (simp add: checksum_loop_append)
  show ?thesis
    unfolding a b
    using checksum_loop_acc [of post "checksum_loop pre 0 + ucast c"]
      checksum_loop_acc [of post "checksum_loop pre 0"]
    by (simp add: add.assoc add.commute)
qed

subsection \<open>Zeros, an odd last byte, and the residual\<close>

text \<open>On a buffer of zeros of any length the result is 0xFFFF; an odd last byte counts
  as the high byte of a last word padded with a zero byte; and putting the computed
  checksum into the data at an even offset, into a two-byte field that was zero when it
  was computed or behind data of even length, and computing again gives 0. This holds
  for every buffer, also where the 32-bit sum wraps around.\<close>

lemma ComputeChecksum_zeros_odd_residual:
  "ComputeChecksum (replicate n 0) = 0xFFFF \<and>
   (even (length data) \<longrightarrow> ComputeChecksum (data @ [b]) = ComputeChecksum (data @ [b, 0])) \<and>
   (even (length pre) \<longrightarrow>
      (let c = ComputeChecksum (pre @ [0, 0] @ post)
       in ComputeChecksum (pre @ [ucast (drop_bit 8 c), ucast c] @ post) = 0)) \<and>
   (even (length data) \<longrightarrow>
      (let c = ComputeChecksum data
       in ComputeChecksum (data @ [ucast (drop_bit 8 c), ucast c]) = 0))"
proof (intro conjI impI)
  show "ComputeChecksum (replicate n 0) = 0xFFFF"
    by (simp add: ComputeChecksum_def checksum_loop_zeros)
next
  assume "even (length data)"
  then show "ComputeChecksum (data @ [b]) = ComputeChecksum (data @ [b, 0])"
    by (simp add: ComputeChecksum_def checksum_loop_append)
next
  assume e: "even (length pre)"
  show "let c = ComputeChecksum (pre @ [0, 0] @ post)
        in ComputeChecksum (pre @ [ucast (drop_bit 8 c), ucast c] @ post) = 0"
    unfolding Let_def ComputeChecksum_fold [of "pre @ [ucast (drop_bit 8 _), ucast _] @ post"]
      checksum_loop_field [OF e]
    unfolding ComputeChecksum_fold
    by (rule checksum_residual)
next
  assume e: "even (length data)"
  have z: "checksum_loop (data @ [0, 0]) 0 = checksum_loop data 0"
    using e by (simp add: checksum_loop_append)
  show "let c = ComputeChecksum data
        in ComputeChecksum (data @ [ucast (drop_bit 8 c), ucast c]) = 0"
    unfolding Let_def
    using checksum_loop_field [OF e, of "NOT (checksum_fold (checksum_loop data 0))" "[]"]
      checksum_residual [of "checksum_loop data 0"]
    by (simp add: ComputeChecksum_fold z)
qed

subsection \<open>Agreement with the specification's description\<close>

text \<open>As long as the sum of the words fits the 32-bit variable \<open>sum\<close>, which it does
  for every buffer of up to 131074 bytes (65537 words of at most 0xFFFF),
  \<open>ComputeChecksum\<close> returns the checksum as the specification describes it.\<close>

lemma unat_be_word:
  "unat (push_bit 8 (ucast (a :: 8 word) :: 32 word) OR ucast (b :: 8 word)) = 256 * unat a + unat b"
proof -
  have d: "push_bit 8 (ucast a :: 32 word) AND ucast b = 0"
    by (rule bit_word_eqI) (auto simp: bit_simps dest: bit_imp_le_length)
  have "push_bit 8 (ucast a :: 32 word) OR ucast b = push_bit 8 (ucast a) + ucast b"
    using word_plus_and_or [of "push_bit 8 (ucast a :: 32 word)" "ucast b"] d by simp
  moreover have ua: "unat (ucast a :: 32 word) = unat a"
    using unsigned_less [of a, where 'a = nat]
    by (simp add: unsigned_ucast_eq take_bit_eq_mod)
  moreover have "unat (push_bit 8 (ucast a :: 32 word)) = 256 * unat a"
  proof -
    have "unat (ucast a :: 32 word) * unat (256 :: 32 word) < 2 ^ LENGTH(32)"
      unfolding ua using unsigned_less [of a, where 'a = nat] by simp
    then have "unat ((ucast a :: 32 word) * 256) = unat (ucast a :: 32 word) * unat (256 :: 32 word)"
      by (simp only: unat_mult_lem [THEN iffD1])
    then show ?thesis unfolding ua by (simp add: push_bit_eq_mult)
  qed
  moreover have "unat (ucast b :: 32 word) = unat b"
    using unsigned_less [of b, where 'a = nat]
    by (simp add: unsigned_ucast_eq take_bit_eq_mod)
  moreover have "256 * unat a + unat b < 2 ^ LENGTH(32)"
    using unsigned_less [of a, where 'a = nat] unsigned_less [of b, where 'a = nat] by simp
  ultimately show ?thesis
    by (simp only: unat_add_lem [THEN iffD1])
qed

lemma carry_once:
  assumes "65536 \<le> y" and "y < 131072"
  shows "y div 65536 = 1" and "y mod 65536 = y - (65536 :: nat)"
proof -
  have "y mod 65536 = (y - 65536) mod 65536" using assms(1) by (rule le_mod_geq)
  also have "\<dots> = y - 65536" using assms(2) by simp
  finally show "y mod 65536 = y - (65536 :: nat)" .
  have "y div 65536 = Suc ((y - 65536) div 65536)" using assms(1) by (simp add: le_div_geq)
  also have "(y - 65536) div 65536 = 0" using assms(2) by simp
  finally show "y div 65536 = 1" by simp
qed

lemma fold_nat_end_around_carry:
  assumes "x < 4294967296"
  shows "fold_nat x = end_around_carry x"
proof -
  define y where "y = x div 65536 + x mod 65536"
  have y: "y < 131071" using assms by (simp add: y_def)
  have f: "fold_nat x = (y + y div 65536) mod 65536" by (simp add: fold_nat_def y_def)
  show ?thesis
  proof (cases "x < 65536")
    case True
    then have "y = x" by (simp add: y_def)
    with True show ?thesis unfolding f by (simp add: end_around_carry.simps [of x])
  next
    case False
    then have ex: "end_around_carry x = end_around_carry y"
      by (simp add: end_around_carry.simps [of x] y_def)
    show ?thesis
    proof (cases "y < 65536")
      case True
      then show ?thesis unfolding f ex by (simp add: end_around_carry.simps [of y])
    next
      case ny: False
      then have ge: "65536 \<le> y" by simp
      have lt: "y < 131072" using y by simp
      note c = carry_once [OF ge lt]
      have "end_around_carry y = end_around_carry (y div 65536 + y mod 65536)"
        using ny by (simp add: end_around_carry.simps [of y])
      also have "y div 65536 + y mod 65536 = y - 65535" unfolding c using ge by simp
      also have "end_around_carry (y - 65535) = y - 65535"
      proof -
        have "y - 65535 < 65536" using y by linarith
        then show ?thesis by (subst end_around_carry.simps) (simp only: if_True)
      qed
      finally have e: "end_around_carry y = y - 65535" .
      have "(y + y div 65536) mod 65536 = (y + 1) mod 65536" unfolding c by simp
      also have "\<dots> = y + 1 - 65536"
        using carry_once(2) [of "y + 1"] ge y by simp
      finally show ?thesis unfolding f ex e using ge by simp
    qed
  qed
qed

lemma be_words_bound: "sum_list (be_words d) \<le> 65535 * ((length d + 1) div 2)"
proof (induction d rule: induct_list012)
  case 1
  show ?case by simp
next
  case (2 x)
  show ?case using unsigned_less [of x, where 'a = nat] by simp
next
  case (3 x y zs)
  have "256 * unat x + unat y \<le> 65535"
    using unsigned_less [of x, where 'a = nat] unsigned_less [of y, where 'a = nat] by simp
  with "3.IH"(1) show ?case by simp
qed

lemma unat_checksum_loop:
  "unat (checksum_loop d 0) = sum_list (be_words d) mod 2 ^ 32"
proof (induction d rule: induct_list012)
  case 1
  show ?case by simp
next
  case (2 x)
  have "unat (push_bit 8 (ucast x :: 32 word) OR ucast (0 :: 8 word)) = 256 * unat x + unat (0 :: 8 word)"
    by (rule unat_be_word)
  then show ?case using unsigned_less [of x, where 'a = nat] by simp
next
  case (3 x y zs)
  have "checksum_loop (x # y # zs) 0 = (push_bit 8 (ucast x) OR ucast y) + checksum_loop zs 0"
    using checksum_loop_acc [of zs "0 + (push_bit 8 (ucast x) OR ucast y)"] by simp
  then have "unat (checksum_loop (x # y # zs) 0)
      = ((256 * unat x + unat y) + sum_list (be_words zs) mod 2 ^ 32) mod 2 ^ 32"
    by (simp add: unat_word_ariths unat_be_word "3.IH"(1))
  then show ?case by (simp add: mod_add_right_eq)
qed

lemma ComputeChecksum_refines_spec:
  assumes "length data \<le> 131074"
  shows "unat (ComputeChecksum data) = internet_checksum_spec data"
proof -
  have "sum_list (be_words data) \<le> 65535 * ((length data + 1) div 2)" by (rule be_words_bound)
  also have "\<dots> \<le> 65535 * 65537" using assms by simp
  finally have b: "sum_list (be_words data) < 4294967296" by simp
  then have "unat (checksum_loop data 0) = sum_list (be_words data)"
    by (simp add: unat_checksum_loop)
  then show ?thesis
    using b
    by (simp add: ComputeChecksum_fold unat_not16 unat_checksum_fold fold_nat_end_around_carry
        internet_checksum_spec_def)
qed

subsection \<open>Where the claim fails\<close>

text \<open>A buffer of \<open>2 * k\<close> bytes 0xFF: the 32-bit sum and the sum of the words.\<close>

lemma replicate_double_Suc: "replicate (2 * Suc k) x = x # x # replicate (2 * k) x"
  by simp

lemma ff_word: "push_bit 8 (ucast (0xFF :: 8 word)) OR ucast (0xFF :: 8 word) = (0xFFFF :: 32 word)"
  by simp

lemma checksum_loop_ff:
  "checksum_loop (replicate (2 * k) 0xFF) s = s + of_nat k * 0xFFFF"
proof (induction k arbitrary: s)
  case 0
  show ?case by simp
next
  case (Suc k)
  have "checksum_loop (replicate (2 * Suc k) 0xFF) s
      = checksum_loop (replicate (2 * k) 0xFF) (s + 0xFFFF)"
    unfolding replicate_double_Suc checksum_loop.simps ff_word ..
  also have "\<dots> = (s + 0xFFFF) + of_nat k * 0xFFFF" by (rule Suc.IH)
  also have "\<dots> = s + of_nat (Suc k) * 0xFFFF"
    by (simp only: of_nat_Suc distrib_right mult_1 add.assoc)
  finally show ?case .
qed

lemma be_words_ff: "sum_list (be_words (replicate (2 * k) 0xFF)) = k * 65535"
proof (induction k)
  case 0
  show ?case by simp
next
  case (Suc k)
  have "unat (0xFF :: 8 word) = 255" by simp
  then have "sum_list (be_words (replicate (2 * Suc k) 0xFF))
      = 65535 + sum_list (be_words (replicate (2 * k) 0xFF))"
    unfolding replicate_double_Suc be_words.simps by simp
  then show ?case using Suc.IH by simp
qed

lemma ComputeChecksum_ff_131076: "ComputeChecksum (replicate (2 * 65538) 0xFF) = 1"
proof -
  have "of_nat 65538 * 0xFFFF = (0xFFFE :: 32 word)" by simp
  then have "checksum_loop (replicate (2 * 65538) 0xFF) 0 = (0xFFFE :: 32 word)"
    unfolding checksum_loop_ff by simp
  then have "ComputeChecksum (replicate (2 * 65538) 0xFF) = NOT (checksum_fold 0xFFFE)"
    unfolding ComputeChecksum_fold by (rule arg_cong)
  also have "NOT (checksum_fold 0xFFFE) = 1" by (simp add: checksum_fold_def)
  finally show ?thesis .
qed

lemma spec_ff_131076: "internet_checksum_spec (replicate (2 * 65538) 0xFF) = 0"
proof -
  have s: "sum_list (be_words (replicate (2 * 65538) 0xFF)) = 65538 * 65535"
    by (rule be_words_ff)
  have n: "(65538 * 65535 :: nat) = 4295032830" by simp
  have a: "end_around_carry 4295032830 = end_around_carry 131070"
    by (subst end_around_carry.simps) simp
  have b: "end_around_carry 131070 = end_around_carry 65535"
    by (subst end_around_carry.simps) simp
  have c: "end_around_carry 65535 = 65535"
    by (subst end_around_carry.simps) simp
  have "internet_checksum_spec (replicate (2 * 65538) 0xFF) = 65535 - end_around_carry (65538 * 65535)"
    unfolding internet_checksum_spec_def s ..
  also have "\<dots> = 0" unfolding n a b c by simp
  finally show ?thesis .
qed

text \<open>
  Claim C9 fails as it is stated, in two places. The residual is not 0 for every
  buffer: behind a buffer of odd length the checksum lies at an odd offset, and for the
  one byte 01 the checksum is 0xFEFF and the three bytes 01 FE FF give 0xFF00. And the
  result is not the Internet checksum of every buffer: for 131076 bytes 0xFF the sum of
  the words is above \<open>2 ^ 32\<close>, the variable \<open>sum\<close> wraps around, and the result is 1
  where the checksum of the specification is 0.
\<close>

theorem ComputeChecksum_counterexample:
  "ComputeChecksum [1] = 0xFEFF \<and> ComputeChecksum [1, 0xFE, 0xFF] = 0xFF00 \<and>
   ComputeChecksum (replicate (2 * 65538) 0xFF) = 1 \<and>
   internet_checksum_spec (replicate (2 * 65538) 0xFF) = 0"
proof (intro conjI)
  show "ComputeChecksum [1] = 0xFEFF" by (simp add: ComputeChecksum_def)
  show "ComputeChecksum [1, 0xFE, 0xFF] = 0xFF00" by (simp add: ComputeChecksum_def)
  show "ComputeChecksum (replicate (2 * 65538) 0xFF) = 1" by (rule ComputeChecksum_ff_131076)
  show "internet_checksum_spec (replicate (2 * 65538) 0xFF) = 0" by (rule spec_ff_131076)
qed

subsection \<open>The checksum, as amended\<close>

text \<open>
  Claim C9, amended. For every buffer of at most 131074 bytes \<open>ComputeChecksum\<close>
  returns the Internet ones' complement checksum as the specification describes it:
  the bytes as 16-bit big-endian words, an odd last byte as the high byte of a last
  word padded with zero, the sum with the carries added back in, and the complement of
  its 16 bits. For every buffer of zeros, of whatever length, it returns 0xFFFF; for
  every buffer an odd last byte counts as the high byte of a last padded word; and
  for every buffer, putting the computed checksum into the data at an even offset, into
  a two-byte field that was zero when it was computed or behind data of even length,
  and computing again gives 0.
\<close>

theorem ComputeChecksum_internet_checksum:
  "(length data \<le> 131074 \<longrightarrow> unat (ComputeChecksum data) = internet_checksum_spec data) \<and>
   ComputeChecksum (replicate n 0) = 0xFFFF \<and>
   (even (length data) \<longrightarrow> ComputeChecksum (data @ [b]) = ComputeChecksum (data @ [b, 0])) \<and>
   (even (length pre) \<longrightarrow>
      (let c = ComputeChecksum (pre @ [0, 0] @ post)
       in ComputeChecksum (pre @ [ucast (drop_bit 8 c), ucast c] @ post) = 0)) \<and>
   (even (length data) \<longrightarrow>
      (let c = ComputeChecksum data
       in ComputeChecksum (data @ [ucast (drop_bit 8 c), ucast c]) = 0))"
  using ComputeChecksum_refines_spec [of data]
    ComputeChecksum_zeros_odd_residual [of n data b pre post]
  by blast

theorem ComputeChecksum_internet_checksum_witness:
  "length [1, 2 :: 8 word] \<le> 131074 \<and> even (length [1, 2 :: 8 word]) \<and>
   unat (ComputeChecksum [1, 2]) = internet_checksum_spec [1, 2] \<and>
   ComputeChecksum [1, 2, 3] = ComputeChecksum [1, 2, 3, 0] \<and>
   ComputeChecksum [1, 2, 0, 0, 3] = 0xFBFD \<and>
   ComputeChecksum [1, 2, 0xFB, 0xFD, 3] = 0"
proof -
  have l: "length [1, 2 :: 8 word] \<le> 131074" by simp
  have e: "even (length [1, 2 :: 8 word])" by simp
  have c: "ComputeChecksum ([1, 2] @ [0, 0] @ [3]) = 0xFBFD"
    by (simp add: ComputeChecksum_def)
  have h: "ucast (drop_bit 8 (0xFBFD :: 16 word)) = (0xFB :: 8 word)"
      "ucast (0xFBFD :: 16 word) = (0xFD :: 8 word)"
    by simp_all
  note t = ComputeChecksum_internet_checksum [of "[1, 2]" 0 3 "[1, 2]" "[3]"]
  from t l have r: "unat (ComputeChecksum [1, 2]) = internet_checksum_spec [1, 2]"
    by blast
  from t e have a: "ComputeChecksum ([1, 2] @ [3]) = ComputeChecksum ([1, 2] @ [3, 0])"
    by blast
  from t e have "ComputeChecksum
      ([1, 2] @ [ucast (drop_bit 8 (ComputeChecksum ([1, 2] @ [0, 0] @ [3]))),
                 ucast (ComputeChecksum ([1, 2] @ [0, 0] @ [3]))] @ [3]) = 0"
    unfolding Let_def by blast
  then have b: "ComputeChecksum ([1, 2] @ [0xFB, 0xFD] @ [3]) = 0"
    unfolding c h .
  from l e r a b c show ?thesis by simp
qed

end
